theory Spec2Isabelle
  imports Main "HOL-Library.Sublist"
begin

section \<open>The node model of \<open>terminal-vfs.ts\<close>\<close>

text \<open>
  \<open>FileSystemNode\<close> is the interface of the source: a name, a type tag and the optional
  fields \<open>content\<close> and \<open>children\<close>. The optional field \<open>parent\<close> is a back reference into
  the same object graph. The graph is built once by \<open>createInitialFileSystem\<close>, no node
  object occurs twice in it, and \<open>setParents\<close> stamps every child with the object that holds
  it in its \<open>children\<close> array. A reference to a node object is therefore represented by the
  position of the object in the tree: the list of child indices leading from the root
  object to it. The reference of the root is the empty list, \<open>node.parent\<close> of a reference
  is the reference without its last index (and \<open>undefined\<close> for the root), and the
  comparison of two references by identity is the equality of the positions.
\<close>

datatype ntype = File | Directory

datatype FileSystemNode =
  Node (name: string) (type: ntype) (content: "string option")
       (children: "FileSystemNode list option")

type_synonym ref = "nat list"

record VirtualFileSystem =
  root :: FileSystemNode
  currentDir :: ref

definition root_ref :: ref where
  "root_ref = []"

text \<open>Reading the object behind a reference: follow the \<open>children\<close> arrays by index.\<close>

fun deref :: "FileSystemNode \<Rightarrow> ref \<Rightarrow> FileSystemNode option" where
  "deref n [] = Some n"
| "deref n (i # r) =
     (case children n of
        None \<Rightarrow> None
      | Some cs \<Rightarrow> if i < length cs then deref (cs ! i) r else None)"

text \<open>\<open>node.parent\<close> as stamped by \<open>setParents\<close>: \<open>undefined\<close> for the root object.\<close>

definition parent :: "ref \<Rightarrow> ref option" where
  "parent r = (if r = root_ref then None else Some (butlast r))"

text \<open>\<open>current.parent || this.root\<close>\<close>

definition parent_or_root :: "ref \<Rightarrow> ref" where
  "parent_or_root r = (case parent r of Some p \<Rightarrow> p | None \<Rightarrow> root_ref)"

text \<open>
  \<open>setParents\<close> visits every object once and stamps it with the object whose \<open>children\<close>
  array holds it. The stamps are collected here as pairs of the reference of the visited
  object and the value assigned to its \<open>parent\<close> field; \<open>node\<close> is the reference of the
  object being visited, and its \<open>i\<close>-th child has the reference \<open>node @ [i]\<close>.
\<close>

fun setParents :: "FileSystemNode \<Rightarrow> ref \<Rightarrow> ref option \<Rightarrow> (ref \<times> ref option) list"
  and setParents_forEach :: "FileSystemNode list \<Rightarrow> ref \<Rightarrow> nat \<Rightarrow> (ref \<times> ref option) list" where
  "setParents (Node nm ty ct ch) node par =
     (node, par) # (case ch of None \<Rightarrow> [] | Some cs \<Rightarrow> setParents_forEach cs node 0)"
| "setParents_forEach [] node i = []"
| "setParents_forEach (child # cs) node i =
     setParents child (node @ [i]) (Some node) @ setParents_forEach cs node (Suc i)"

section \<open>JavaScript string and array primitives used by the source\<close>

text \<open>
  Strings are lists of characters. Every string of the seed tree and every message of the
  source is ASCII, where the number of UTF-16 code units that \<open>length\<close> counts in
  JavaScript is the number of characters.
\<close>

definition CR :: char where "CR = CHR 0x0D"
definition LF :: char where "LF = CHR 0x0A"
definition CRLF :: string where "CRLF = [CR, LF]"

text \<open>\<open>s.split(c)\<close> for a one-character separator: never the empty array.\<close>

fun split :: "char \<Rightarrow> string \<Rightarrow> string list" where
  "split c [] = [[]]"
| "split c (x # xs) =
     (if x = c then [] # split c xs
      else (case split c xs of
              [] \<Rightarrow> [[x]]
            | w # ws \<Rightarrow> (x # w) # ws))"

text \<open>\<open>xs.join(sep)\<close>\<close>

fun join :: "string \<Rightarrow> string list \<Rightarrow> string" where
  "join sep [] = []"
| "join sep [x] = x"
| "join sep (x # y # ys) = x @ sep @ join sep (y # ys)"

text \<open>\<open>s.startsWith(p)\<close>\<close>

definition startsWith :: "string \<Rightarrow> string \<Rightarrow> bool" where
  "startsWith s p = prefix p s"

text \<open>\<open>s.lastIndexOf(c)\<close> for one character: \<open>None\<close> stands for the result \<open>-1\<close>.\<close>

fun lastIndexOf :: "string \<Rightarrow> char \<Rightarrow> nat option" where
  "lastIndexOf [] c = None"
| "lastIndexOf (x # xs) c =
     (case lastIndexOf xs c of
        Some i \<Rightarrow> Some (Suc i)
      | None \<Rightarrow> if x = c then Some 0 else None)"

text \<open>\<open>s.substring(i, j)\<close> and \<open>s.substring(i)\<close> for indices within the string.\<close>

definition substring :: "string \<Rightarrow> nat \<Rightarrow> nat \<Rightarrow> string" where
  "substring s i j = take (j - i) (drop i s)"

definition substring_from :: "string \<Rightarrow> nat \<Rightarrow> string" where
  "substring_from s i = drop i s"

text \<open>\<open>n.toString()\<close> for a non-negative integer, and \<open>s.padStart(n)\<close>.\<close>

fun toString :: "nat \<Rightarrow> string" where
  "toString n =
     (if n < 10 then [''0123456789'' ! n]
      else toString (n div 10) @ [''0123456789'' ! (n mod 10)])"

declare toString.simps [simp del]

definition padStart :: "nat \<Rightarrow> string \<Rightarrow> string" where
  "padStart n s = replicate (n - length s) CHR '' '' @ s"

text \<open>
  \<open>xs.find(p)\<close> on an array of node objects returns the first object that satisfies \<open>p\<close>;
  with references as positions this is the index of that object in the array.
\<close>

fun find_index :: "('a \<Rightarrow> bool) \<Rightarrow> 'a list \<Rightarrow> nat option" where
  "find_index P [] = None"
| "find_index P (x # xs) =
     (if P x then Some 0 else map_option Suc (find_index P xs))"

section \<open>The seed tree\<close>

definition createFile :: "string \<Rightarrow> string \<Rightarrow> FileSystemNode" where
  "createFile nm c = Node nm File (Some c) None"

definition createDir :: "string \<Rightarrow> FileSystemNode list \<Rightarrow> FileSystemNode" where
  "createDir nm cs = Node nm Directory None (Some cs)"

definition readme :: FileSystemNode where
  "readme = createFile ''README.txt''
     (''Welcome to SAIC CyberSec Club.'' @ CRLF @ ''We hack. We learn. We defend.'' @ CRLF
      @ ''Ethical hacking at IIT Mandi.'')"

definition members :: FileSystemNode where
  "members = createFile ''members.txt''
     (''SAIC Core Team Members:'' @ CRLF @ CRLF @ ''Coordinator:'' @ CRLF
      @ ''- Abhinandan Kumar'' @ CRLF @ CRLF @ ''Core Team:'' @ CRLF
      @ ''- Somit Gond'' @ CRLF @ ''- Ayush Gaurav'' @ CRLF @ ''- Utsav'' @ CRLF
      @ ''- Divyanshu'' @ CRLF @ ''- Abhijith R Nair'' @ CRLF @ ''- Pranav Shirbhate'' @ CRLF
      @ ''- Vishnu'' @ CRLF @ ''- Piyush Panpaliya'' @ CRLF @ ''- Piyush Dwivedi'' @ CRLF
      @ ''- Davda James'' @ CRLF @ ''- Arani Ghosh'' @ CRLF @ CRLF)"

definition flag :: FileSystemNode where
  "flag = createFile ''flag.txt'' ''SAIC{w3lc0m3_70_541c}''"

definition exploits :: FileSystemNode where
  \<open>exploits = createDir ''exploits''
     [createFile ''cve-2024-1337.py''
        (''# Exploit for CVE-2024-1337'' @ [LF] @ ''import os'' @ [LF]
         @ ''print("Exploiting...")''),
      createFile ''buffer_overflow.c''
        (''// Buffer overflow example'' @ [LF] @ ''#include <stdio.h>'' @ [LF]
         @ ''void main() { char buf[10]; gets(buf); }'')]\<close>

definition tools :: FileSystemNode where
  \<open>tools = createDir ''tools''
     [createFile ''nmap'' (''#!/bin/bash'' @ [LF] @ ''echo "Nmap scan initiated..."''),
      createFile ''metasploit''
        (''#!/bin/bash'' @ [LF] @ ''echo "Starting Metasploit Framework..."'')]\<close>

definition secrets :: FileSystemNode where
  "secrets = createDir ''secrets''
     [createFile ''passwords.txt'' (''admin:admin123'' @ [LF] @ ''root:toor'')]"

definition createInitialFileSystem :: FileSystemNode where
  "createInitialFileSystem =
     Node ''/'' Directory None (Some [readme, members, flag, exploits, tools, secrets])"

text \<open>The constructor: the seed tree, with the current directory at its root.\<close>

definition new_vfs :: "FileSystemNode \<Rightarrow> VirtualFileSystem" where
  "new_vfs t = \<lparr>root = t, currentDir = root_ref\<rparr>"

definition constructor :: VirtualFileSystem where
  "constructor = new_vfs createInitialFileSystem"

section \<open>Path resolution\<close>

text \<open>The \<open>for\<close> loop of \<open>resolvePath\<close>, with its two early returns.\<close>

fun resolve_loop :: "VirtualFileSystem \<Rightarrow> ref \<Rightarrow> string list \<Rightarrow> ref option" where
  "resolve_loop fs current [] = Some current"
| "resolve_loop fs current (part # parts) =
     (if part = ''..'' then resolve_loop fs (parent_or_root current) parts
      else (case deref (root fs) current of
              None \<Rightarrow> None
            | Some node \<Rightarrow>
                if type node \<noteq> Directory then None
                else (case children node of
                        None \<Rightarrow> None
                      | Some cs \<Rightarrow>
                          (case find_index (\<lambda>child. name child = part) cs of
                             None \<Rightarrow> None
                           | Some i \<Rightarrow> resolve_loop fs (current @ [i]) parts))))"

definition path_parts :: "string \<Rightarrow> string list" where
  "path_parts path = filter (\<lambda>p. p \<noteq> [] \<and> p \<noteq> ''.'') (split CHR ''/'' path)"

definition resolvePath :: "VirtualFileSystem \<Rightarrow> string \<Rightarrow> ref option" where
  "resolvePath fs path =
     (if path = ''/'' \<or> path = ''~'' then Some root_ref
      else if path = ''.'' then Some (currentDir fs)
      else if path = ''..'' then Some (parent_or_root (currentDir fs))
      else resolve_loop fs
             (if startsWith path ''/'' then root_ref else currentDir fs)
             (path_parts path))"

text \<open>
  The object a resolved reference stands for. A reference handed out by the source always
  points at an object; the model returns \<open>None\<close> for a position outside the tree.
\<close>

definition resolveNode :: "VirtualFileSystem \<Rightarrow> string \<Rightarrow> FileSystemNode option" where
  "resolveNode fs path =
     (case resolvePath fs path of None \<Rightarrow> None | Some r \<Rightarrow> deref (root fs) r)"

section \<open>The operations\<close>

text \<open>
  The \<open>while\<close> loop of \<open>getPwd\<close>: as long as \<open>current\<close> is defined and is not the root,
  prepend its name and go to its parent.
\<close>

function pwd_loop :: "VirtualFileSystem \<Rightarrow> ref option \<Rightarrow> string list \<Rightarrow> string list" where
  "pwd_loop fs current path =
     (case current of
        None \<Rightarrow> path
      | Some c \<Rightarrow>
          if c = root_ref then path
          else (case deref (root fs) c of
                  None \<Rightarrow> path
                | Some node \<Rightarrow> pwd_loop fs (parent c) (name node # path)))"
  by pat_completeness auto
termination
  by (relation "measure (\<lambda>(fs, current, path).
         case current of None \<Rightarrow> 0 | Some c \<Rightarrow> Suc (length c))")
     (auto simp: root_ref_def parent_def)

declare pwd_loop.simps [simp del]

definition getPwd :: "VirtualFileSystem \<Rightarrow> string" where
  "getPwd fs = ''/'' @ join ''/'' (pwd_loop fs (Some (currentDir fs)) [])"

definition getPrompt :: "VirtualFileSystem \<Rightarrow> string" where
  "getPrompt fs =
     (let path = getPwd fs in
      if path = ''/'' then ''root@saic:~$ '' else ''root@saic:'' @ path @ ''$ '')"

text \<open>\<open>args[0] || '.'\<close>: a missing or empty first argument gives \<open>'.'\<close>.\<close>

definition ls_target :: "string list \<Rightarrow> string" where
  "ls_target args = (case args of [] \<Rightarrow> ''.'' | a # _ \<Rightarrow> if a = [] then ''.'' else a)"

definition ls_long_line :: "FileSystemNode \<Rightarrow> string" where
  "ls_long_line child =
     (let ty = (if type child = Directory then ''d'' else ''-'');
          perm = ''rwxr-xr-x'';
          size = (case content child of
                    None \<Rightarrow> 4096
                  | Some c \<Rightarrow> if c = [] then 4096 else length c);
          date = ''Nov 19 10:00''
      in ty @ perm @ '' 1 root root '' @ padStart 5 (toString size) @ '' '' @ date
           @ '' '' @ name child)"

definition ls_short_entry :: "FileSystemNode \<Rightarrow> string" where
  "ls_short_entry child =
     (if type child = Directory then name child @ ''/'' else name child)"

definition ls :: "VirtualFileSystem \<Rightarrow> string list \<Rightarrow> string" where
  "ls fs args =
     (let targetPath = ls_target args in
      case resolveNode fs targetPath of
        None \<Rightarrow> ''ls: cannot access '' @ [CHR 0x27] @ targetPath @ [CHR 0x27]
                  @ '': No such file or directory''
      | Some node \<Rightarrow>
          if type node = File then name node
          else (case children node of
                  None \<Rightarrow> []
                | Some cs \<Rightarrow>
                    if cs = [] then []
                    else if ''-la'' \<in> set args \<or> ''-l'' \<in> set args \<or> ''-al'' \<in> set args
                    then join CRLF (map ls_long_line cs)
                    else join ''  '' (map ls_short_entry cs)))"

text \<open>\<open>cd\<close> returns its message and the file system with the new current directory.\<close>

definition cd :: "VirtualFileSystem \<Rightarrow> string \<Rightarrow> string \<times> VirtualFileSystem" where
  "cd fs path =
     (if path = [] \<or> path = ''~'' then ([], fs\<lparr>currentDir := root_ref\<rparr>)
      else (case resolvePath fs path of
              None \<Rightarrow> (''cd: '' @ path @ '': No such file or directory'', fs)
            | Some r \<Rightarrow>
                (case deref (root fs) r of
                   None \<Rightarrow> (''cd: '' @ path @ '': No such file or directory'', fs)
                 | Some node \<Rightarrow>
                     if type node \<noteq> Directory
                     then (''cd: '' @ path @ '': Not a directory'', fs)
                     else ([], fs\<lparr>currentDir := r\<rparr>))))"

definition cat :: "VirtualFileSystem \<Rightarrow> string list \<Rightarrow> string" where
  "cat fs args =
     (case args of
        [] \<Rightarrow> ''cat: missing operand''
      | path # _ \<Rightarrow>
          (case resolveNode fs path of
             None \<Rightarrow> ''cat: '' @ path @ '': No such file or directory''
           | Some node \<Rightarrow>
               if type node = Directory then ''cat: '' @ path @ '': Is a directory''
               else (case content node of None \<Rightarrow> [] | Some c \<Rightarrow> c)))"

text \<open>
  The recursive closure \<open>traverse\<close> of \<open>find\<close>; the result is what it pushes. The
  operation \<open>find\<close> itself is named \<open>find_vfs\<close> here, apart from \<open>List.find\<close>.
\<close>

fun traverse :: "FileSystemNode \<Rightarrow> string \<Rightarrow> string list" where
  "traverse (Node nm ty ct ch) currentPath =
     currentPath #
     (if ty = Directory then
        (case ch of
           None \<Rightarrow> []
         | Some cs \<Rightarrow>
             concat (map (\<lambda>child. traverse child
                            (if currentPath = ''/'' then ''/'' @ name child
                             else currentPath @ ''/'' @ name child)) cs))
      else [])"

definition find_vfs :: "VirtualFileSystem \<Rightarrow> string \<Rightarrow> string" where
  "find_vfs fs path =
     (case resolveNode fs path of
        None \<Rightarrow> ''find: '' @ [CHR 0x27] @ path @ [CHR 0x27] @ '': No such file or directory''
      | Some startNode \<Rightarrow> join CRLF (traverse startNode path))"

definition getCompletions :: "VirtualFileSystem \<Rightarrow> string \<Rightarrow> string list" where
  "getCompletions fs input =
     (let tokens = split CHR '' '' input;
          lastToken = last tokens;
          (searchPath, partialName) =
             (case lastIndexOf lastToken CHR ''/'' of
                None \<Rightarrow> (''.'', lastToken)
              | Some lastSlashIndex \<Rightarrow>
                  (let s = substring lastToken 0 lastSlashIndex
                   in (if s = [] then ''/'' else s,
                       substring_from lastToken (lastSlashIndex + 1))))
      in case resolveNode fs searchPath of
           None \<Rightarrow> []
         | Some dirNode \<Rightarrow>
             if type dirNode \<noteq> Directory then []
             else (case children dirNode of
                     None \<Rightarrow> []
                   | Some cs \<Rightarrow>
                       map (\<lambda>child. if type child = Directory then name child @ ''/''
                                     else name child)
                         (filter (\<lambda>child. startsWith (name child) partialName) cs)))"

section \<open>The data-model invariant\<close>

text \<open>
  The root object is a directory, and the current directory is a reference to a directory
  object of the tree.
\<close>

definition valid_state :: "VirtualFileSystem \<Rightarrow> bool" where
  "valid_state fs =
     (type (root fs) = Directory \<and>
      (case deref (root fs) (currentDir fs) of
         None \<Rightarrow> False
       | Some node \<Rightarrow> type node = Directory))"

section \<open>The resolution algorithm as the specification words it\<close>

text \<open>
  Splitting on \<open>/\<close> while discarding empty and bare \<open>.\<close> segments, written as one scan
  over the characters that collects the segment read so far.
\<close>

definition emit_segment :: "string \<Rightarrow> string list" where
  "emit_segment seg = (if seg = [] \<or> seg = ''.'' then [] else [seg])"

fun scan_segments :: "string \<Rightarrow> string \<Rightarrow> string list" where
  "scan_segments seg [] = emit_segment seg"
| "scan_segments seg (x # xs) =
     (if x = CHR ''/'' then emit_segment seg @ scan_segments [] xs
      else scan_segments (seg @ [x]) xs)"

definition segments_spec :: "string \<Rightarrow> string list" where
  "segments_spec p = scan_segments [] p"

text \<open>The first child, in stored order, whose name equals the segment.\<close>

definition first_child_named :: "string \<Rightarrow> FileSystemNode list \<Rightarrow> nat option" where
  "first_child_named seg cs = List.find (\<lambda>i. name (cs ! i) = seg) [0..<length cs]"

text \<open>
  One segment: \<open>..\<close> moves to the parent, and stays at the root; a name needs the
  standing node to be a directory with a child of that name, and descends into it.
\<close>

definition step_spec :: "FileSystemNode \<Rightarrow> ref \<Rightarrow> string \<Rightarrow> ref option" where
  "step_spec t standing seg =
     (if seg = ''..'' then Some (butlast standing)
      else (case deref t standing of
              Some (Node nm Directory ct (Some cs)) \<Rightarrow>
                map_option (\<lambda>i. standing @ [i]) (first_child_named seg cs)
            | _ \<Rightarrow> None))"

fun walk_spec :: "FileSystemNode \<Rightarrow> ref \<Rightarrow> string list \<Rightarrow> ref option" where
  "walk_spec t standing [] = Some standing"
| "walk_spec t standing (seg # segs) =
     (case step_spec t standing seg of
        None \<Rightarrow> None
      | Some s \<Rightarrow> walk_spec t s segs)"

definition resolve_spec :: "VirtualFileSystem \<Rightarrow> string \<Rightarrow> ref option" where
  "resolve_spec fs p =
     (if p = ''/'' \<or> p = ''~'' then Some []
      else if p = ''.'' then Some (currentDir fs)
      else if p = ''..'' then Some (butlast (currentDir fs))
      else walk_spec (root fs)
             (case p of [] \<Rightarrow> currentDir fs
              | c # rest \<Rightarrow> if c = CHR ''/'' then [] else currentDir fs)
             (segments_spec p))"

section \<open>Completion as the specification words it\<close>

text \<open>
  The token being completed is what follows the last space of the line; the text after
  its last \<open>/\<close> is the partial name and the text before it names the directory to search.
\<close>

definition last_token_spec :: "string \<Rightarrow> string" where
  "last_token_spec line = rev (takeWhile (\<lambda>c. c \<noteq> CHR '' '') (rev line))"

definition after_last_slash :: "string \<Rightarrow> string" where
  "after_last_slash tok = rev (takeWhile (\<lambda>c. c \<noteq> CHR ''/'') (rev tok))"

definition before_last_slash :: "string \<Rightarrow> string" where
  "before_last_slash tok = rev (drop 1 (dropWhile (\<lambda>c. c \<noteq> CHR ''/'') (rev tok)))"

definition suggestion :: "FileSystemNode \<Rightarrow> string" where
  "suggestion child = (case type child of Directory \<Rightarrow> name child @ ''/'' | File \<Rightarrow> name child)"

definition completions_spec :: "VirtualFileSystem \<Rightarrow> string \<Rightarrow> string list" where
  "completions_spec fs line =
     (let tok = last_token_spec line;
          (search, partial) =
             (if CHR ''/'' \<in> set tok
              then (if before_last_slash tok = [] then Some root_ref
                    else resolvePath fs (before_last_slash tok),
                    after_last_slash tok)
              else (Some (currentDir fs), tok))
      in case search of
           None \<Rightarrow> []
         | Some r \<Rightarrow>
             (case deref (root fs) r of
                Some (Node nm Directory ct (Some cs)) \<Rightarrow>
                  map suggestion (filter (\<lambda>child. prefix partial (name child)) cs)
              | _ \<Rightarrow> []))"

section \<open>Listing as the specification words it\<close>

text \<open>
  \<open>list_with\<close> is the case analysis of the specification, over the rendering of one
  long-format line. \<open>long_line_spec\<close> renders the line as the specification gives it, with
  the size as a plain decimal; \<open>long_line_padded\<close> right-aligns the size in five columns.
\<close>

definition long_flag :: "string list \<Rightarrow> bool" where
  "long_flag args = (''-la'' \<in> set args \<or> ''-l'' \<in> set args \<or> ''-al'' \<in> set args)"

definition size_spec :: "FileSystemNode \<Rightarrow> nat" where
  "size_spec child =
     (case type child of
        Directory \<Rightarrow> 4096
      | File \<Rightarrow> (case content child of None \<Rightarrow> 0 | Some c \<Rightarrow> length c))"

definition type_char :: "FileSystemNode \<Rightarrow> string" where
  "type_char child = (case type child of Directory \<Rightarrow> ''d'' | File \<Rightarrow> ''-'')"

definition long_line_spec :: "FileSystemNode \<Rightarrow> string" where
  "long_line_spec child =
     type_char child @ ''rwxr-xr-x'' @ '' 1 root root '' @ toString (size_spec child)
       @ '' '' @ ''Nov 19 10:00'' @ '' '' @ name child"

definition short_entry_spec :: "FileSystemNode \<Rightarrow> string" where
  "short_entry_spec child =
     (case type child of Directory \<Rightarrow> name child @ ''/'' | File \<Rightarrow> name child)"

definition list_with :: "(FileSystemNode \<Rightarrow> string) \<Rightarrow> VirtualFileSystem \<Rightarrow> string list \<Rightarrow> string" where
  "list_with long_line fs args =
     (case resolveNode fs (ls_target args) of
        None \<Rightarrow> ''ls: cannot access '' @ [CHR 0x27] @ ls_target args @ [CHR 0x27]
                  @ '': No such file or directory''
      | Some (Node nm File ct ch) \<Rightarrow> nm
      | Some (Node nm Directory ct None) \<Rightarrow> []
      | Some (Node nm Directory ct (Some cs)) \<Rightarrow>
          if long_flag args then join CRLF (map long_line cs)
          else join ''  '' (map short_entry_spec cs))"

definition list_spec :: "VirtualFileSystem \<Rightarrow> string list \<Rightarrow> string" where
  "list_spec = list_with long_line_spec"

definition long_line_padded :: "FileSystemNode \<Rightarrow> string" where
  "long_line_padded child =
     type_char child @ ''rwxr-xr-x'' @ '' 1 root root '' @ padStart 5 (toString (size_spec child))
       @ '' '' @ ''Nov 19 10:00'' @ '' '' @ name child"

definition list_padded :: "VirtualFileSystem \<Rightarrow> string list \<Rightarrow> string" where
  "list_padded = list_with long_line_padded"

text \<open>
  The nodes whose size the specification determines: a directory without content, and a
  file with content that is not empty.
\<close>

definition sized_as_specified :: "FileSystemNode \<Rightarrow> bool" where
  "sized_as_specified child =
     (case type child of
        Directory \<Rightarrow> content child = None
      | File \<Rightarrow> (case content child of None \<Rightarrow> False | Some c \<Rightarrow> c \<noteq> []))"

definition listed_children :: "VirtualFileSystem \<Rightarrow> string list \<Rightarrow> FileSystemNode list" where
  "listed_children fs args =
     (case resolveNode fs (ls_target args) of
        Some (Node nm Directory ct (Some cs)) \<Rightarrow> cs
      | _ \<Rightarrow> [])"

text \<open>Every line feed of the string directly follows a carriage return.\<close>

fun crlf_only_from :: "char \<Rightarrow> string \<Rightarrow> bool" where
  "crlf_only_from prev [] = True"
| "crlf_only_from prev (c # cs) =
     (if c = LF then prev = CR \<and> crlf_only_from c cs else crlf_only_from c cs)"

definition crlf_only :: "string \<Rightarrow> bool" where
  "crlf_only s = crlf_only_from CHR '' '' s"


section \<open>Enumeration as the specification words it\<close>

text \<open>
  The traversal of the specification: the recorded path of a child is the recorded path
  of its parent followed by \<open>/\<close> and the name of the child. The display path of the start
  is the supplied expression when it is relative, and the absolute path reconstructed
  from the tree, as \<open>getPwd\<close> reconstructs it, otherwise.
\<close>

fun traverse_spec :: "FileSystemNode \<Rightarrow> string \<Rightarrow> string list" where
  "traverse_spec (Node nm ty ct ch) recorded =
     recorded #
     (case ty of
        File \<Rightarrow> []
      | Directory \<Rightarrow>
          (case ch of
             None \<Rightarrow> []
           | Some cs \<Rightarrow>
               concat (map (\<lambda>child. traverse_spec child (recorded @ ''/'' @ name child)) cs)))"

definition findAll_spec :: "VirtualFileSystem \<Rightarrow> string \<Rightarrow> string" where
  "findAll_spec fs p =
     (case resolvePath fs p of
        None \<Rightarrow> ''find: '' @ [CHR 0x27] @ p @ [CHR 0x27] @ '': No such file or directory''
      | Some r \<Rightarrow>
          (case deref (root fs) r of
             None \<Rightarrow> ''find: '' @ [CHR 0x27] @ p @ [CHR 0x27] @ '': No such file or directory''
           | Some start \<Rightarrow>
               join CRLF (traverse_spec start
                 (if startsWith p ''/'' then getPwd (fs\<lparr>currentDir := r\<rparr>) else p))))"

text \<open>
  The positions below a node, relative to it, in pre-order: the node itself, then the
  subtrees of its children in stored order. Only a directory is descended into.
\<close>

fun preorder :: "FileSystemNode \<Rightarrow> ref list"
  and preorder_children :: "nat \<Rightarrow> FileSystemNode list \<Rightarrow> ref list" where
  "preorder (Node nm ty ct ch) =
     [] # (case ty of
             File \<Rightarrow> []
           | Directory \<Rightarrow> (case ch of None \<Rightarrow> [] | Some cs \<Rightarrow> preorder_children 0 cs))"
| "preorder_children i [] = []"
| "preorder_children i (c # cs) = map ((#) i) (preorder c) @ preorder_children (Suc i) cs"

text \<open>The positions that a descent through directories reaches.\<close>

fun under :: "FileSystemNode \<Rightarrow> ref \<Rightarrow> bool" where
  "under n [] = True"
| "under n (i # r) =
     (case type n of
        File \<Rightarrow> False
      | Directory \<Rightarrow>
          (case children n of
             None \<Rightarrow> False
           | Some cs \<Rightarrow> i < length cs \<and> under (cs ! i) r))"

text \<open>
  The path printed for a position below the start: the path recorded for the start is the
  supplied expression; a child of a node recorded as \<open>/\<close> is recorded as \<open>/<name>\<close>, any
  other child as the path of its parent followed by \<open>/<name>\<close>.
\<close>

fun display_path :: "FileSystemNode \<Rightarrow> string \<Rightarrow> ref \<Rightarrow> string" where
  "display_path n recorded [] = recorded"
| "display_path n recorded (i # r) =
     (case children n of
        None \<Rightarrow> recorded
      | Some cs \<Rightarrow>
          if i < length cs
          then display_path (cs ! i)
                 (if recorded = ''/'' then ''/'' @ name (cs ! i)
                  else recorded @ ''/'' @ name (cs ! i)) r
          else recorded)"

section \<open>The absolute form of a path expression\<close>

text \<open>
  The absolute form is computed on the strings alone: the segments of the expression are
  applied to the segments of the current absolute path, or to none when the expression
  begins with \<open>/\<close>; \<open>..\<close> drops the last segment, if there is one, and a name is added.
  The expression \<open>~\<close> stands for the root.
\<close>

fun normalise :: "string list \<Rightarrow> string list \<Rightarrow> string list" where
  "normalise stack [] = stack"
| "normalise stack (seg # segs) =
     (if seg = ''..'' then normalise (butlast stack) segs
      else normalise (stack @ [seg]) segs)"

definition absolute_form :: "string \<Rightarrow> string \<Rightarrow> string" where
  "absolute_form cwd p =
     (if p = ''~'' then ''/''
      else ''/'' @ join ''/''
             (normalise (case p of [] \<Rightarrow> segments_spec cwd
                         | c # rest \<Rightarrow> if c = CHR ''/'' then [] else segments_spec cwd)
                (segments_spec p)))"

text \<open>A valid directory path: a path expression that resolves to a directory.\<close>

definition valid_directory_path :: "VirtualFileSystem \<Rightarrow> string \<Rightarrow> bool" where
  "valid_directory_path fs p =
     (p \<noteq> [] \<and>
      (case resolveNode fs p of None \<Rightarrow> False | Some node \<Rightarrow> type node = Directory))"

text \<open>
  The states the program can be in: the constructor's state over a tree, and any state
  that \<open>cd\<close>, the one operation that changes the state, leaves behind.
\<close>

inductive reachable :: "FileSystemNode \<Rightarrow> VirtualFileSystem \<Rightarrow> bool" for t where
  initial: "reachable t (new_vfs t)"
| after_cd: "reachable t fs \<Longrightarrow> reachable t (snd (cd fs p))"

text \<open>
  Names of a tree that can be written in a path expression: not empty, not \<open>.\<close> or
  \<open>..\<close>, and without \<open>/\<close>; required of every node below the root.
\<close>

definition good_name :: "string \<Rightarrow> bool" where
  "good_name nm = (nm \<noteq> [] \<and> nm \<noteq> ''.'' \<and> nm \<noteq> ''..'' \<and> CHR ''/'' \<notin> set nm)"

fun good_names :: "FileSystemNode \<Rightarrow> bool" where
  "good_names (Node nm ty ct ch) =
     (case ch of
        None \<Rightarrow> True
      | Some cs \<Rightarrow> list_all (\<lambda>c. good_name (name c) \<and> good_names c) cs)"

text \<open>The names on the way from a node to a position below it.\<close>

fun names_along :: "FileSystemNode \<Rightarrow> ref \<Rightarrow> string list" where
  "names_along n [] = []"
| "names_along n (i # r) =
     (case children n of
        None \<Rightarrow> []
      | Some cs \<Rightarrow> if i < length cs then name (cs ! i) # names_along (cs ! i) r else [])"

text \<open>
  A position that the resolver can hand out: every step enters, from a directory, the
  first child of its name.
\<close>

fun canon :: "FileSystemNode \<Rightarrow> ref \<Rightarrow> bool" where
  "canon n [] = True"
| "canon n (i # r) =
     (case children n of
        None \<Rightarrow> False
      | Some cs \<Rightarrow>
          type n = Directory \<and> i < length cs
          \<and> find_index (\<lambda>c. name c = name (cs ! i)) cs = Some i
          \<and> canon (cs ! i) r)"

section \<open>Evaluating the seed tree\<close>

lemma seed_resolve_doesnotexist: "resolveNode constructor ''doesnotexist'' = None"
  by code_simp

lemma seed_resolve_flag: "resolvePath constructor ''flag.txt'' = Some [2]"
  by code_simp

lemma seed_deref_flag: "deref (root constructor) [2] = Some flag \<and> type flag = File"
  by code_simp

lemma seed_resolve_exploits: "resolvePath constructor ''exploits'' = Some [3]"
  by code_simp

lemma seed_deref_exploits:
  "deref (root constructor) [3] = Some exploits \<and> type exploits = Directory"
  by code_simp

lemma seed_node_flag:
  "resolveNode constructor ''flag.txt'' = Some flag \<and> type flag = File
   \<and> content flag = Some ''SAIC{w3lc0m3_70_541c}''"
  by code_simp

lemma seed_node_exploits:
  "resolveNode constructor ''exploits'' = Some exploits \<and> type exploits = Directory"
  by code_simp

section \<open>Changing the directory\<close>

text \<open>
  Claim C2. \<open>cd\<close> with the empty path or with \<open>~\<close> sets the current directory to the root
  and returns the empty string. For any other path: when the path does not resolve, the
  message is \<open>cd: <path>: No such file or directory\<close>; when it resolves to a file, the
  message is \<open>cd: <path>: Not a directory\<close>; in both cases the file system, and with it
  the current directory, is returned as it was. When it resolves to a directory, the
  current directory becomes that node and the message is empty; and the current directory
  changes only in that case.
\<close>

theorem cd_cases:
  "cd fs [] = ([], fs\<lparr>currentDir := root_ref\<rparr>) \<and>
   cd fs ''~'' = ([], fs\<lparr>currentDir := root_ref\<rparr>) \<and>
   (path \<noteq> [] \<and> path \<noteq> ''~'' \<longrightarrow>
      (resolveNode fs path = None \<longrightarrow>
         cd fs path = (''cd: '' @ path @ '': No such file or directory'', fs)) \<and>
      (\<forall>r node. resolvePath fs path = Some r \<and> deref (root fs) r = Some node
           \<and> type node = File \<longrightarrow>
         cd fs path = (''cd: '' @ path @ '': Not a directory'', fs)) \<and>
      (\<forall>r node. resolvePath fs path = Some r \<and> deref (root fs) r = Some node
           \<and> type node = Directory \<longrightarrow>
         cd fs path = ([], fs\<lparr>currentDir := r\<rparr>)) \<and>
      (currentDir (snd (cd fs path)) \<noteq> currentDir fs \<longrightarrow>
         (\<exists>node. resolveNode fs path = Some node \<and> type node = Directory)
         \<and> fst (cd fs path) = []))"
  by (auto simp: cd_def resolveNode_def split: option.splits)

theorem cd_cases_witness:
  "resolveNode constructor ''doesnotexist'' = None \<and>
   cd constructor ''doesnotexist''
     = (''cd: doesnotexist: No such file or directory'', constructor) \<and>
   resolvePath constructor ''flag.txt'' = Some [2] \<and>
   cd constructor ''flag.txt'' = (''cd: flag.txt: Not a directory'', constructor) \<and>
   resolvePath constructor ''exploits'' = Some [3] \<and>
   cd constructor ''exploits'' = ([], constructor\<lparr>currentDir := [3]\<rparr>)"
  using cd_cases[of constructor "''doesnotexist''"] cd_cases[of constructor "''flag.txt''"]
    cd_cases[of constructor "''exploits''"]
    seed_resolve_doesnotexist seed_resolve_flag seed_deref_flag
    seed_resolve_exploits seed_deref_exploits
  by simp

section \<open>Reading a file\<close>

text \<open>
  Claim C5. \<open>cat\<close> without arguments returns \<open>cat: missing operand\<close>. Otherwise the
  first argument is the path: when it does not resolve, the result is
  \<open>cat: <path>: No such file or directory\<close>; when it resolves to a directory, the result
  is \<open>cat: <path>: Is a directory\<close>, whatever the children of the directory are; when it
  resolves to a file, the result is the content of the file as it is stored, and the
  empty string when the file has no content.
\<close>

theorem cat_cases:
  "cat fs [] = ''cat: missing operand'' \<and>
   (resolveNode fs path = None \<longrightarrow>
      cat fs (path # rest) = ''cat: '' @ path @ '': No such file or directory'') \<and>
   (\<forall>node. resolveNode fs path = Some node \<and> type node = Directory \<longrightarrow>
      cat fs (path # rest) = ''cat: '' @ path @ '': Is a directory'') \<and>
   (\<forall>node c. resolveNode fs path = Some node \<and> type node = File
        \<and> content node = Some c \<longrightarrow>
      cat fs (path # rest) = c) \<and>
   (\<forall>node. resolveNode fs path = Some node \<and> type node = File
        \<and> content node = None \<longrightarrow>
      cat fs (path # rest) = [])"
  by (auto simp: cat_def split: option.splits)

theorem cat_cases_witness:
  "cat constructor [] = ''cat: missing operand'' \<and>
   cat constructor [''doesnotexist''] = ''cat: doesnotexist: No such file or directory'' \<and>
   cat constructor [''exploits''] = ''cat: exploits: Is a directory'' \<and>
   cat constructor [''flag.txt''] = ''SAIC{w3lc0m3_70_541c}'' \<and>
   cat \<lparr>root = Node ''/'' Directory None (Some [Node ''empty'' File None None]),
        currentDir = []\<rparr> [''empty''] = []"
proof -
  have "resolveNode \<lparr>root = Node ''/'' Directory None (Some [Node ''empty'' File None None]),
          currentDir = []\<rparr> ''empty'' = Some (Node ''empty'' File None None)"
    by code_simp
  then show ?thesis
    using cat_cases[of constructor "''doesnotexist''" "[]"]
      cat_cases[of constructor "''exploits''" "[]"]
      cat_cases[of constructor "''flag.txt''" "[]"]
      cat_cases[of "\<lparr>root = Node ''/'' Directory None (Some [Node ''empty'' File None None]),
          currentDir = []\<rparr>" "''empty''" "[]"]
      seed_resolve_doesnotexist seed_node_flag seed_node_exploits
    by simp
qed

section \<open>Facts about the string primitives\<close>

lemma split_not_Nil: "split c xs \<noteq> []"
  by (induction xs) (auto split: list.splits)

lemma split_append_sep: "split c (xs @ c # ys) = split c xs @ split c ys"
proof (induction xs)
  case Nil
  then show ?case by simp
next
  case (Cons x xs)
  then show ?case
    using split_not_Nil[of c xs] by (cases "split c xs") auto
qed

lemma split_no_sep: "c \<notin> set xs \<Longrightarrow> split c xs = [xs]"
  by (induction xs) auto

lemma scan_segments_split:
  "scan_segments seg xs =
     filter (\<lambda>p. p \<noteq> [] \<and> p \<noteq> ''.'')
       (case split CHR ''/'' xs of [] \<Rightarrow> [] | w # ws \<Rightarrow> (seg @ w) # ws)"
proof (induction xs arbitrary: seg)
  case Nil
  then show ?case by (simp add: emit_segment_def)
next
  case (Cons x xs)
  show ?case
  proof (cases "x = CHR ''/''")
    case True
    then show ?thesis
      using Cons[of "[]"] split_not_Nil[of "CHR ''/''" xs]
      by (cases "split CHR ''/'' xs") (auto simp: emit_segment_def)
  next
    case False
    then show ?thesis
      using Cons[of "seg @ [x]"] split_not_Nil[of "CHR ''/''" xs]
      by (cases "split CHR ''/'' xs") auto
  qed
qed

lemma path_parts_segments: "path_parts p = segments_spec p"
  using split_not_Nil[of "CHR ''/''" p]
  by (cases "split CHR ''/'' p")
     (auto simp: path_parts_def segments_spec_def scan_segments_split)

lemma find_over_map:
  "List.find Q (map f xs) = map_option f (List.find (\<lambda>x. Q (f x)) xs)"
  by (induction xs) auto

lemma find_upt_Suc:
  "List.find Q [0..<Suc n]
     = (if Q 0 then Some 0 else map_option Suc (List.find (\<lambda>i. Q (Suc i)) [0..<n]))"
proof -
  have "[0..<Suc n] = 0 # map Suc [0..<n]"
    by (simp add: upt_conv_Cons map_Suc_upt del: upt_Suc)
  then show ?thesis by (simp add: find_over_map del: upt_Suc)
qed

lemma find_index_upt: "find_index P xs = List.find (\<lambda>i. P (xs ! i)) [0..<length xs]"
proof (induction xs)
  case Nil
  then show ?case by simp
next
  case (Cons x xs)
  then show ?case by (simp add: find_upt_Suc del: upt_Suc)
qed

section \<open>Path resolution follows the algorithm\<close>

lemma parent_or_root_butlast: "parent_or_root r = butlast r"
  by (simp add: parent_or_root_def parent_def root_ref_def)

lemma resolve_loop_walk_spec: "resolve_loop fs cur parts = walk_spec (root fs) cur parts"
proof (induction parts arbitrary: cur)
  case Nil
  then show ?case by simp
next
  case (Cons part parts)
  show ?case
  proof (cases "part = ''..''")
    case True
    then show ?thesis by (simp add: Cons step_spec_def parent_or_root_butlast)
  next
    case False
    then show ?thesis
      by (auto simp: Cons step_spec_def first_child_named_def find_index_upt
          split: option.splits FileSystemNode.splits ntype.splits)
  qed
qed

text \<open>
  Claim C1. For every path expression, \<open>resolvePath\<close> computes what the algorithm of the
  specification computes (\<open>resolve_spec\<close>): the literals \<open>/\<close> and \<open>~\<close> give the root,
  \<open>.\<close> gives the current directory, \<open>..\<close> gives its parent, and the root when the current
  directory is the root; any other expression is cut into its segments without the empty
  and the \<open>.\<close> ones, the walk starts at the root exactly when the expression begins with
  \<open>/\<close>, \<open>..\<close> steps to the parent, a name steps into the first child of that name of a
  directory, and anything else is the result \<open>None\<close>. Both sides are total functions: no
  input makes resolution raise.
\<close>

theorem resolvePath_follows_algorithm: "resolvePath fs p = resolve_spec fs p"
  by (cases p)
    (auto simp: resolvePath_def resolve_spec_def resolve_loop_walk_spec path_parts_segments
       parent_or_root_butlast root_ref_def startsWith_def)

theorem resolvePath_follows_algorithm_witness:
  "resolve_spec constructor ''/exploits//./cve-2024-1337.py/'' = Some [3, 0] \<and>
   resolve_spec constructor ''tools/../secrets/passwords.txt'' = Some [5, 0] \<and>
   resolve_spec constructor ''flag.txt/nothing'' = None \<and>
   resolve_spec constructor ''../..'' = Some []"
proof -
  have "resolvePath constructor ''/exploits//./cve-2024-1337.py/'' = Some [3, 0]"
    by code_simp
  moreover have "resolvePath constructor ''tools/../secrets/passwords.txt'' = Some [5, 0]"
    by code_simp
  moreover have "resolvePath constructor ''flag.txt/nothing'' = None"
    by code_simp
  moreover have "resolvePath constructor ''../..'' = Some []"
    by code_simp
  ultimately show ?thesis
    by (simp add: resolvePath_follows_algorithm)
qed

section \<open>A parent step after a file\<close>


lemma resolve_loop_append:
  "resolve_loop fs cur (ps @ qs) =
     (case resolve_loop fs cur ps of None \<Rightarrow> None | Some r \<Rightarrow> resolve_loop fs r qs)"
  by (induction ps arbitrary: cur) (auto split: option.splits)

lemma path_parts_append_sep:
  "path_parts (xs @ CHR ''/'' # ys) = path_parts xs @ path_parts ys"
  by (simp add: path_parts_def split_append_sep)

lemma path_parts_dotdot: "path_parts ''..'' = [''..'']"
  by (simp add: path_parts_def)

lemma resolvePath_as_loop:
  "p \<noteq> ''/'' \<Longrightarrow> p \<noteq> ''~'' \<Longrightarrow>
   resolvePath fs p =
     resolve_loop fs (if startsWith p ''/'' then root_ref else currentDir fs) (path_parts p)"
  by (auto simp: resolvePath_def path_parts_def startsWith_def)

lemma startsWith_append: "p \<noteq> [] \<Longrightarrow> startsWith (p @ q) ''/'' = startsWith p ''/''"
  by (cases p) (auto simp: startsWith_def)

text \<open>
  Claim C10. When a path expression \<open>P\<close> resolves to a file \<open>f\<close>, the file has a parent
  \<open>d\<close>, and the expression \<open>P/..\<close> resolves to \<open>d\<close>: the segment \<open>..\<close> is taken before
  the standing node is asked to be a directory, so it is applied on a file as well.
\<close>

theorem dotdot_after_file:
  assumes "valid_state fs"
    and "resolvePath fs P = Some r"
    and "deref (root fs) r = Some f"
    and "type f = File"
  shows "\<exists>d. parent r = Some d \<and> resolvePath fs (P @ ''/..'') = Some d"
proof -
  have rootdir: "type (root fs) = Directory"
    using assms(1) by (simp add: valid_state_def)
  have r_ne: "r \<noteq> root_ref"
    using assms(3,4) rootdir by (auto simp: root_ref_def)
  have not_lit: "P \<noteq> ''/''" "P \<noteq> ''~''"
    using assms(2) r_ne by (auto simp: resolvePath_def)
  have not_empty: "P \<noteq> []"
  proof
    assume "P = []"
    then have "r = currentDir fs"
      using assms(2) by (simp add: resolvePath_def path_parts_def startsWith_def)
    then show False
      using assms(1,3,4) by (simp add: valid_state_def)
  qed
  have loopP: "resolve_loop fs (if startsWith P ''/'' then root_ref else currentDir fs)
                 (path_parts P) = Some r"
    using resolvePath_as_loop[OF not_lit] assms(2) by simp
  have len: "length (P @ ''/..'') \<ge> 3" by simp
  have "P @ ''/..'' \<noteq> ''/''" "P @ ''/..'' \<noteq> ''~''"
    using not_empty by auto
  then have "resolvePath fs (P @ ''/..'') =
      resolve_loop fs (if startsWith (P @ ''/..'') ''/'' then root_ref else currentDir fs)
        (path_parts (P @ ''/..''))"
    by (rule resolvePath_as_loop)
  also have "\<dots> = resolve_loop fs (if startsWith P ''/'' then root_ref else currentDir fs)
        (path_parts P @ [''..''])"
    using path_parts_append_sep[of P "''..''"] path_parts_dotdot
      startsWith_append[OF not_empty, of "''/..''"] by simp
  also have "\<dots> = Some (parent_or_root r)"
    by (simp add: resolve_loop_append loopP)
  finally have "resolvePath fs (P @ ''/..'') = Some (butlast r)"
    by (simp add: parent_or_root_butlast)
  moreover have "parent r = Some (butlast r)"
    using r_ne by (simp add: parent_def)
  ultimately show ?thesis by simp
qed

theorem dotdot_after_file_witness:
  "valid_state constructor \<and>
   resolvePath constructor ''exploits/cve-2024-1337.py'' = Some [3, 0] \<and>
   map_option type (deref (root constructor) [3, 0]) = Some File \<and>
   parent [3, 0] = Some [3] \<and>
   resolvePath constructor ''exploits/cve-2024-1337.py/..'' = Some [3]"
proof -
  have v: "valid_state constructor" by code_simp
  have r: "resolvePath constructor ''exploits/cve-2024-1337.py'' = Some [3, 0]" by code_simp
  obtain f where f: "deref (root constructor) [3, 0] = Some f" "type f = File"
    by (simp add: constructor_def new_vfs_def createInitialFileSystem_def exploits_def createDir_def createFile_def)
  from dotdot_after_file[OF v r f] v r f show ?thesis
    by (auto simp: parent_def)
qed


section \<open>Completion\<close>

lemma last_split_no_sep: "c \<notin> set xs \<Longrightarrow> last (split c xs) = xs"
  by (simp add: split_no_sep)

lemma last_split_at:
  "c \<notin> set zs \<Longrightarrow> last (split c (ys @ c # zs)) = zs"
  by (simp add: split_append_sep split_no_sep)

lemma last_split_spec: "last (split CHR '' '' line) = last_token_spec line"
proof (cases "CHR '' '' \<in> set line")
  case True
  then obtain ys zs where d: "line = ys @ CHR '' '' # zs" "CHR '' '' \<notin> set zs"
    using split_list_last[of "CHR '' ''" line] by blast
  have "takeWhile (\<lambda>c. c \<noteq> CHR '' '') (rev zs @ CHR '' '' # rev ys) = rev zs"
    using d(2) by (subst takeWhile_append2) auto
  then show ?thesis
    using d by (simp add: last_split_at last_token_spec_def)
next
  case False
  then have tw: "takeWhile (\<lambda>c. c \<noteq> CHR '' '') (rev line) = rev line"
    by (auto simp: takeWhile_eq_all_conv)
  show ?thesis
    unfolding last_token_spec_def tw using False by (simp add: last_split_no_sep)
qed

lemma lastIndexOf_none: "c \<notin> set xs \<Longrightarrow> lastIndexOf xs c = None"
  by (induction xs) auto

lemma lastIndexOf_at:
  "c \<notin> set zs \<Longrightarrow> lastIndexOf (ys @ c # zs) c = Some (length ys)"
  by (induction ys) (auto simp: lastIndexOf_none)

lemma slash_parts:
  assumes "CHR ''/'' \<notin> set zs"
  shows "before_last_slash (ys @ CHR ''/'' # zs) = ys"
    and "after_last_slash (ys @ CHR ''/'' # zs) = zs"
proof -
  have t: "takeWhile (\<lambda>c. c \<noteq> CHR ''/'') (rev zs @ CHR ''/'' # rev ys) = rev zs"
    using assms by (subst takeWhile_append2) auto
  have d: "dropWhile (\<lambda>c. c \<noteq> CHR ''/'') (rev zs @ CHR ''/'' # rev ys) = CHR ''/'' # rev ys"
    using assms by (subst dropWhile_append2) auto
  show "before_last_slash (ys @ CHR ''/'' # zs) = ys"
    using d by (simp add: before_last_slash_def)
  show "after_last_slash (ys @ CHR ''/'' # zs) = zs"
    using t by (simp add: after_last_slash_def)
qed

lemma resolvePath_dot: "resolvePath fs ''.'' = Some (currentDir fs)"
  by (simp add: resolvePath_def)

lemma resolvePath_slash: "resolvePath fs ''/'' = Some root_ref"
  by (simp add: resolvePath_def)

lemma completion_of_node:
  "(case n of
      None \<Rightarrow> []
    | Some dirNode \<Rightarrow>
        if type dirNode \<noteq> Directory then []
        else (case children dirNode of
                None \<Rightarrow> []
              | Some cs \<Rightarrow>
                  map (\<lambda>child. if type child = Directory then name child @ ''/''
                                else name child)
                    (filter (\<lambda>child. startsWith (name child) partial) cs)))
   = (case n of
        Some (Node nm Directory ct (Some cs)) \<Rightarrow>
          map suggestion (filter (\<lambda>child. prefix partial (name child)) cs)
      | _ \<Rightarrow> [])"
proof -
  have "(\<lambda>child. if type child = Directory then name child @ ''/'' else name child) = suggestion"
    by (auto simp: suggestion_def fun_eq_iff split: ntype.splits)
  then show ?thesis
    by (auto simp: startsWith_def split: option.splits FileSystemNode.splits ntype.splits)
qed

text \<open>
  Claim C7. \<open>getCompletions\<close> completes the last space-delimited token of the line. With
  a \<open>/\<close> in the token, the text before the last \<open>/\<close> is resolved as the directory to
  search, the root when that text is empty, and the text after it is the partial name;
  without one, the current directory is searched for the whole token. When the directory
  does not resolve or is not a directory the result is the empty list. Otherwise the
  result lists, in stored order, the children whose name has the partial name as a
  prefix, directories with \<open>/\<close> appended and files bare.
\<close>

theorem getCompletions_spec: "getCompletions fs line = completions_spec fs line"
proof (cases "CHR ''/'' \<in> set (last_token_spec line)")
  case True
  then obtain ys zs where d: "last_token_spec line = ys @ CHR ''/'' # zs" "CHR ''/'' \<notin> set zs"
    using split_list_last[of "CHR ''/''" "last_token_spec line"] by blast
  show ?thesis
    using d True
    by (simp add: getCompletions_def completions_spec_def last_split_spec lastIndexOf_at
        slash_parts substring_def substring_from_def resolveNode_def resolvePath_slash
        completion_of_node Let_def split: option.splits)
next
  case False
  then show ?thesis
    by (simp add: getCompletions_def completions_spec_def last_split_spec lastIndexOf_none
        resolveNode_def resolvePath_dot completion_of_node Let_def split: option.splits)
qed

theorem getCompletions_spec_witness:
  "completions_spec constructor ''cd secr'' = [''secrets/''] \<and>
   completions_spec constructor ''cat /exploits/cve'' = [''cve-2024-1337.py''] \<and>
   completions_spec constructor ''ls /'' =
     [''README.txt'', ''members.txt'', ''flag.txt'', ''exploits/'', ''tools/'', ''secrets/''] \<and>
   completions_spec constructor ''cat flag.txt/'' = [] \<and>
   completions_spec constructor ''cat nothing/x'' = [] \<and>
   completions_spec constructor ''cd Secr'' = []"
proof -
  have "getCompletions constructor ''cd secr'' = [''secrets/'']"
    by code_simp
  moreover have "getCompletions constructor ''cat /exploits/cve'' = [''cve-2024-1337.py'']"
    by code_simp
  moreover have "getCompletions constructor ''ls /'' =
     [''README.txt'', ''members.txt'', ''flag.txt'', ''exploits/'', ''tools/'', ''secrets/'']"
    by code_simp
  moreover have "getCompletions constructor ''cat flag.txt/'' = []"
    by code_simp
  moreover have "getCompletions constructor ''cat nothing/x'' = []"
    by code_simp
  moreover have "getCompletions constructor ''cd Secr'' = []"
    by code_simp
  ultimately show ?thesis
    by (simp add: getCompletions_spec)
qed

section \<open>Listing\<close>

lemma ls_long_line_padded:
  "sized_as_specified child \<Longrightarrow> ls_long_line child = long_line_padded child"
  by (auto simp: ls_long_line_def long_line_padded_def sized_as_specified_def size_spec_def
      type_char_def Let_def split: ntype.splits option.splits)

lemma ls_short_entry_spec: "ls_short_entry = short_entry_spec"
  by (auto simp: ls_short_entry_def short_entry_spec_def fun_eq_iff split: ntype.splits)

text \<open>
  Claim C4, as stated: the long format prints the size between single blanks. On the seed
  tree, the long listing of \<open>secrets\<close> differs from that rendering: the size \<open>24\<close> is
  printed in a field of five characters.
\<close>

theorem ls_long_format_counterexample:
  "ls constructor [''secrets'', ''-l''] \<noteq> list_spec constructor [''secrets'', ''-l'']"
proof -
  have "ls constructor [''secrets'', ''-l'']
          = ''-rwxr-xr-x 1 root root    24 Nov 19 10:00 passwords.txt''"
    by code_simp
  moreover have "list_spec constructor [''secrets'', ''-l'']
          = ''-rwxr-xr-x 1 root root 24 Nov 19 10:00 passwords.txt''"
    by code_simp
  ultimately show ?thesis by simp
qed

text \<open>
  Claim C4, amended. When the target does not resolve, \<open>ls\<close> returns
  \<open>ls: cannot access '<path>': No such file or directory\<close>; for a file, its name; for a
  directory without children, the empty string; otherwise the children in stored order,
  in the short format as directory names followed by \<open>/\<close> and file names bare, joined
  by two blanks, and in the long format as one line per child, joined by carriage return
  and line feed, of the form
  \<open><type-char>rwxr-xr-x 1 root root <size> Nov 19 10:00 <name>\<close>, where the size is
  right-aligned in five columns and is the length of the content of a file whose content
  is not empty, and 4096 for a directory.
\<close>

theorem ls_padded:
  assumes "\<forall>child \<in> set (listed_children fs args). sized_as_specified child"
  shows "ls fs args = list_padded fs args"
proof (cases "resolveNode fs (ls_target args)")
  case None
  then show ?thesis by (simp add: ls_def list_padded_def list_with_def)
next
  case (Some node)
  obtain nm ty ct ch where node: "node = Node nm ty ct ch" by (cases node)
  show ?thesis
  proof (cases ty)
    case File
    then show ?thesis using Some node by (simp add: ls_def list_padded_def list_with_def)
  next
    case Directory
    show ?thesis
    proof (cases ch)
      case None
      then show ?thesis
        using Some node Directory by (simp add: ls_def list_padded_def list_with_def)
    next
      case (Some cs)
      then have "listed_children fs args = cs"
        using \<open>resolveNode fs (ls_target args) = Some node\<close> node Directory
        by (simp add: listed_children_def)
      then have eq: "map ls_long_line cs = map long_line_padded cs"
        using assms by (simp add: ls_long_line_padded)
      show ?thesis
        using Some \<open>resolveNode fs (ls_target args) = Some node\<close> node Directory
        by (cases "cs = []") (simp_all add: ls_def list_padded_def list_with_def long_flag_def
            ls_short_entry_spec eq)
    qed
  qed
qed


theorem ls_padded_witness:
  "list_all sized_as_specified (listed_children constructor [''secrets'', ''-l'']) \<and>
   list_all sized_as_specified (listed_children constructor [''.'', ''-la'']) \<and>
   list_padded constructor [''secrets'', ''-l'']
     = ''-rwxr-xr-x 1 root root    24 Nov 19 10:00 passwords.txt'' \<and>
   ls constructor [''.'', ''-la''] = list_padded constructor [''.'', ''-la''] \<and>
   list_padded constructor [''exploits''] = ''cve-2024-1337.py  buffer_overflow.c'' \<and>
   list_padded constructor [''flag.txt''] = ''flag.txt''"
proof -
  have h1: "list_all sized_as_specified (listed_children constructor [''secrets'', ''-l''])"
    by code_simp
  have h2: "list_all sized_as_specified (listed_children constructor [''.'', ''-la''])"
    by code_simp
  have h3: "list_all sized_as_specified (listed_children constructor [''exploits''])"
    by code_simp
  have h4: "list_all sized_as_specified (listed_children constructor [''flag.txt''])"
    by code_simp
  have e1: "ls constructor [''secrets'', ''-l'']
              = ''-rwxr-xr-x 1 root root    24 Nov 19 10:00 passwords.txt''"
    by code_simp
  have e3: "ls constructor [''exploits''] = ''cve-2024-1337.py  buffer_overflow.c''"
    by code_simp
  have e4: "ls constructor [''flag.txt''] = ''flag.txt''"
    by code_simp
  show ?thesis
    using ls_padded[of constructor "[''secrets'', ''-l'']"]
      ls_padded[of constructor "[''.'', ''-la'']"]
      ls_padded[of constructor "[''exploits'']"]
      ls_padded[of constructor "[''flag.txt'']"]
      h1 h2 h3 h4 e1 e3 e4
    by (simp add: list_all_iff)
qed

text \<open>
  Claim C8. With only a flag in the arguments, the flag itself is taken as the target
  path: on the seed tree \<open>ls\<close> answers that \<open>-l\<close> cannot be accessed, where the claim
  has the long listing of the current directory.
\<close>

theorem ls_flag_only_not_found:
  "ls constructor [''-l'']
     = ''ls: cannot access '' @ [CHR 0x27] @ ''-l'' @ [CHR 0x27]
         @ '': No such file or directory'' \<and>
   ls constructor [''-la'']
     = ''ls: cannot access '' @ [CHR 0x27] @ ''-la'' @ [CHR 0x27]
         @ '': No such file or directory'' \<and>
   ls constructor [''secrets'', ''-l'']
     = ''-rwxr-xr-x 1 root root    24 Nov 19 10:00 passwords.txt''"
proof -
  have "ls constructor [''-l'']
     = ''ls: cannot access '' @ [CHR 0x27] @ ''-l'' @ [CHR 0x27]
         @ '': No such file or directory''"
    by code_simp
  moreover have "ls constructor [''-la'']
     = ''ls: cannot access '' @ [CHR 0x27] @ ''-la'' @ [CHR 0x27]
         @ '': No such file or directory''"
    by code_simp
  moreover have "ls constructor [''secrets'', ''-l'']
     = ''-rwxr-xr-x 1 root root    24 Nov 19 10:00 passwords.txt''"
    by code_simp
  ultimately show ?thesis by simp
qed

section \<open>Line endings\<close>

text \<open>
  Claim C9. The content of \<open>exploits/cve-2024-1337.py\<close>, which \<open>cat\<close> returns as it is
  stored, separates its lines by a line feed alone, while the content of \<open>README.txt\<close>
  and the output of \<open>find\<close> use carriage return and line feed.
\<close>

theorem cat_bare_line_feed:
  "\<not> crlf_only (cat constructor [''exploits/cve-2024-1337.py'']) \<and>
   crlf_only (cat constructor [''README.txt'']) \<and>
   crlf_only (find_vfs constructor ''secrets'')"
proof -
  have "\<not> crlf_only (cat constructor [''exploits/cve-2024-1337.py''])"
    by code_simp
  moreover have "crlf_only (cat constructor [''README.txt''])"
    by code_simp
  moreover have "crlf_only (find_vfs constructor ''secrets'')"
    by code_simp
  ultimately show ?thesis by simp
qed

section \<open>Enumeration\<close>

lemma traverse_children:
  assumes "\<And>c. c \<in> set cs \<Longrightarrow>
             traverse c (if p = ''/'' then ''/'' @ name c else p @ ''/'' @ name c)
             = map (display_path c (if p = ''/'' then ''/'' @ name c else p @ ''/'' @ name c))
                 (preorder c)"
    and "children n = Some (pre @ cs)"
  shows "concat (map (\<lambda>child. traverse child
                   (if p = ''/'' then ''/'' @ name child else p @ ''/'' @ name child)) cs)
         = map (display_path n p) (preorder_children (length pre) cs)"
  using assms
proof (induction cs arbitrary: pre)
  case Nil
  then show ?case by simp
next
  case (Cons c cs)
  have nth: "(pre @ c # cs) ! length pre = c" by simp
  have here: "map (display_path n p) (map ((#) (length pre)) (preorder c))
      = traverse c (if p = ''/'' then ''/'' @ name c else p @ ''/'' @ name c)"
    using Cons.prems(2) Cons.prems(1)[of c] by (simp add: nth comp_def)
  have rest: "concat (map (\<lambda>child. traverse child
                   (if p = ''/'' then ''/'' @ name child else p @ ''/'' @ name child)) cs)
         = map (display_path n p) (preorder_children (length (pre @ [c])) cs)"
    using Cons.prems by (intro Cons.IH) auto
  show ?case using here rest by simp
qed

lemma traverse_preorder: "traverse n p = map (display_path n p) (preorder n)"
proof (induction n p rule: traverse.induct)
  case (1 nm ty ct ch p)
  show ?case
  proof (cases ty)
    case File
    then show ?thesis by simp
  next
    case Directory
    show ?thesis
    proof (cases ch)
      case None
      then show ?thesis using Directory by simp
    next
      case (Some cs)
      have "concat (map (\<lambda>child. traverse child
                   (if p = ''/'' then ''/'' @ name child else p @ ''/'' @ name child)) cs)
         = map (display_path (Node nm ty ct ch) p) (preorder_children (length ([]::FileSystemNode list)) cs)"
      proof (rule traverse_children)
        fix c assume "c \<in> set cs"
        then show "traverse c (if p = ''/'' then ''/'' @ name c else p @ ''/'' @ name c)
             = map (display_path c (if p = ''/'' then ''/'' @ name c else p @ ''/'' @ name c))
                 (preorder c)"
          using "1.IH"[OF Directory Some] by simp
      qed (simp add: Some)
      then show ?thesis using Directory Some by simp
    qed
  qed
qed


lemma set_preorder_children:
  "set (preorder_children k cs)
     = {(k + j) # r | j r. j < length cs \<and> r \<in> set (preorder (cs ! j))}"
proof (induction cs arbitrary: k)
  case Nil
  then show ?case by simp
next
  case (Cons c cs)
  have "{(k + j) # r | j r. j < length (c # cs) \<and> r \<in> set (preorder ((c # cs) ! j))}
      = {k # r | r. r \<in> set (preorder c)}
        \<union> {(Suc k + j) # r | j r. j < length cs \<and> r \<in> set (preorder (cs ! j))}"
    (is "?L = ?A \<union> ?B")
  proof (intro set_eqI iffI)
    fix x assume "x \<in> ?L"
    then obtain j r where x: "x = (k + j) # r" "j < length (c # cs)"
      "r \<in> set (preorder ((c # cs) ! j))" by blast
    show "x \<in> ?A \<union> ?B"
    proof (cases j)
      case 0
      then show ?thesis using x by simp
    next
      case (Suc j')
      then have "x = (Suc k + j') # r" "j' < length cs" "r \<in> set (preorder (cs ! j'))"
        using x by simp_all
      then show ?thesis by blast
    qed
  next
    fix x assume "x \<in> ?A \<union> ?B"
    then consider r where "x = k # r" "r \<in> set (preorder c)"
      | j r where "x = (Suc k + j) # r" "j < length cs" "r \<in> set (preorder (cs ! j))"
      by blast
    then show "x \<in> ?L"
    proof cases
      case 1
      then have "x = (k + 0) # r" "0 < length (c # cs)" "r \<in> set (preorder ((c # cs) ! 0))"
        by simp_all
      then show ?thesis by blast
    next
      case 2
      then have "x = (k + Suc j) # r" "Suc j < length (c # cs)"
        "r \<in> set (preorder ((c # cs) ! Suc j))"
        by simp_all
      then show ?thesis by blast
    qed
  qed
  moreover have "set (map ((#) k) (preorder c)) = {k # r | r. r \<in> set (preorder c)}"
    by auto
  ultimately show ?case using Cons.IH[of "Suc k"] by simp
qed

lemma preorder_iff_under: "r \<in> set (preorder n) \<longleftrightarrow> under n r"
proof (induction r arbitrary: n)
  case Nil
  then show ?case by (cases n) simp
next
  case (Cons i r)
  obtain nm ty ct ch where n: "n = Node nm ty ct ch" by (cases n)
  show ?case
  proof (cases ty)
    case File
    then show ?thesis using n by simp
  next
    case Directory
    show ?thesis
    proof (cases ch)
      case None
      then show ?thesis using n Directory by simp
    next
      case (Some cs)
      have "i # r \<in> set (preorder n) \<longleftrightarrow> i # r \<in> set (preorder_children 0 cs)"
        using n Directory Some by simp
      also have "\<dots> \<longleftrightarrow> i < length cs \<and> r \<in> set (preorder (cs ! i))"
        by (auto simp: set_preorder_children)
      also have "\<dots> \<longleftrightarrow> i < length cs \<and> under (cs ! i) r"
        using Cons.IH by simp
      finally show ?thesis using n Directory Some by simp
    qed
  qed
qed

lemma preorder_sorted:
  "sorted_wrt ord_class.lexordp (preorder n)"
  "sorted_wrt ord_class.lexordp (preorder_children k cs) \<and> (\<forall>r \<in> set (preorder_children k cs). \<exists>i q. r = i # q \<and> k \<le> i)"
proof (induction n and k cs rule: preorder_preorder_children.induct)
  case (1 nm ty ct ch)
  then show ?case
    by (auto split: ntype.splits option.splits)
next
  case (2 i)
  then show ?case by simp
next
  case (3 i c cs)
  have a: "sorted_wrt ord_class.lexordp (map ((#) i) (preorder c))"
    using 3(1) by (simp add: sorted_wrt_map)
  have b: "\<forall>x \<in> set (map ((#) i) (preorder c)). \<forall>y \<in> set (preorder_children (Suc i) cs). ord_class.lexordp x y"
    using 3(2) by fastforce
  show ?case
    using a b 3(2) by (fastforce simp: sorted_wrt_append)
qed

lemma preorder_distinct: "distinct (preorder n)"
proof -
  have "sorted_wrt (\<lambda>a b. a \<noteq> b) (preorder n)"
    by (rule sorted_wrt_mono_rel[OF _ preorder_sorted(1)]) (auto simp: lexordp_irreflexive')
  then show ?thesis by (simp add: distinct_conv_nth sorted_wrt_iff_nth_less) (metis nat_neq_iff)
qed


text \<open>
  Claim C6, as stated: for an absolute expression the start is printed as its
  reconstructed absolute path. On the seed tree, \<open>find\<close> of \<open>/exploits/\<close> prints the
  expression as it was supplied, with its trailing \<open>/\<close>, and builds the paths of the
  children on it.
\<close>

theorem find_display_path_counterexample:
  "find_vfs constructor ''/exploits/'' \<noteq> findAll_spec constructor ''/exploits/''"
proof -
  have "find_vfs constructor ''/exploits/''
          = ''/exploits/'' @ CRLF @ ''/exploits//cve-2024-1337.py'' @ CRLF
            @ ''/exploits//buffer_overflow.c''"
    by code_simp
  moreover have "findAll_spec constructor ''/exploits/''
          = ''/exploits'' @ CRLF @ ''/exploits/cve-2024-1337.py'' @ CRLF
            @ ''/exploits/buffer_overflow.c''"
    by code_simp
  ultimately show ?thesis by simp
qed

text \<open>
  Claim C6, amended. When the starting path does not resolve, \<open>find\<close> returns an error
  naming the path. Otherwise it prints one path for each position below the start, in
  pre-order, joined by carriage return and line feed: the start is printed as the
  expression that was supplied, relative or absolute, and a descendant as the path of its
  parent followed by \<open>/<name>\<close>, or as \<open>/<name>\<close> alone when the path of the parent is
  \<open>/\<close>. The positions in pre-order are in lexicographic order of their child indices (a
  directory before its contents, children in stored order), none occurs twice, and they
  are exactly the positions reached by descending through directories.
\<close>

theorem find_preorder:
  "find_vfs fs p =
     (case resolveNode fs p of
        None \<Rightarrow> ''find: '' @ [CHR 0x27] @ p @ [CHR 0x27] @ '': No such file or directory''
      | Some start \<Rightarrow> join CRLF (map (display_path start p) (preorder start))) \<and>
   sorted_wrt ord_class.lexordp (preorder n) \<and>
   distinct (preorder n) \<and>
   set (preorder n) = {r. under n r}"
proof -
  have "find_vfs fs p =
     (case resolveNode fs p of
        None \<Rightarrow> ''find: '' @ [CHR 0x27] @ p @ [CHR 0x27] @ '': No such file or directory''
      | Some start \<Rightarrow> join CRLF (map (display_path start p) (preorder start)))"
    by (simp add: find_vfs_def traverse_preorder split: option.splits)
  moreover have "set (preorder n) = {r. under n r}"
    using preorder_iff_under by blast
  ultimately show ?thesis
    by (simp add: preorder_sorted(1) preorder_distinct)
qed

theorem find_preorder_witness:
  "resolveNode constructor ''.'' = Some createInitialFileSystem \<and>
   preorder createInitialFileSystem
     = [[], [0], [1], [2], [3], [3, 0], [3, 1], [4], [4, 0], [4, 1], [5], [5, 0]] \<and>
   find_vfs constructor ''.''
     = join CRLF (map (display_path createInitialFileSystem ''.'')
         [[], [0], [1], [2], [3], [3, 0], [3, 1], [4], [4, 0], [4, 1], [5], [5, 0]]) \<and>
   map (display_path createInitialFileSystem ''/'') [[], [3], [3, 1]]
     = [''/'', ''/exploits'', ''/exploits/buffer_overflow.c''] \<and>
   find_vfs constructor ''nothing''
     = ''find: '' @ [CHR 0x27] @ ''nothing'' @ [CHR 0x27] @ '': No such file or directory''"
proof -
  have r: "resolveNode constructor ''.'' = Some createInitialFileSystem"
    by code_simp
  have n: "resolveNode constructor ''nothing'' = None"
    by code_simp
  have p: "preorder createInitialFileSystem
     = [[], [0], [1], [2], [3], [3, 0], [3, 1], [4], [4, 0], [4, 1], [5], [5, 0]]"
    by code_simp
  have d: "map (display_path createInitialFileSystem ''/'') [[], [3], [3, 1]]
     = [''/'', ''/exploits'', ''/exploits/buffer_overflow.c'']"
    by code_simp
  show ?thesis
    using find_preorder[of constructor "''.''" createInitialFileSystem]
      find_preorder[of constructor "''nothing''" createInitialFileSystem] r n p d
    by simp
qed

section \<open>The current directory and its absolute path\<close>

lemma deref_append:
  "deref t (r @ s) = (case deref t r of None \<Rightarrow> None | Some n \<Rightarrow> deref n s)"
  by (induction r arbitrary: t) (auto split: option.splits)

lemma names_along_append:
  "deref t r = Some n \<Longrightarrow> names_along t (r @ s) = names_along t r @ names_along n s"
  by (induction r arbitrary: t) (auto split: option.splits if_splits)

lemma canon_append:
  "canon t (r @ s) \<longleftrightarrow> canon t r \<and> (case deref t r of None \<Rightarrow> False | Some n \<Rightarrow> canon n s)"
  by (induction r arbitrary: t) (auto split: option.splits)

lemma canon_deref: "canon t r \<Longrightarrow> \<exists>n. deref t r = Some n"
  by (induction r arbitrary: t) (auto split: option.splits)

lemma canon_butlast: "canon t r \<Longrightarrow> canon t (butlast r)"
proof (cases r rule: rev_cases)
  case Nil
  then show ?thesis by simp
next
  case (snoc r' i)
  assume "canon t r"
  then show ?thesis using snoc by (simp add: canon_append)
qed

lemma names_along_length: "canon t r \<Longrightarrow> length (names_along t r) = length r"
  by (induction r arbitrary: t) (auto split: option.splits)

lemma names_along_butlast:
  assumes "canon t r"
  shows "names_along t (butlast r) = butlast (names_along t r)"
proof (cases r rule: rev_cases)
  case Nil
  then show ?thesis by simp
next
  case (snoc r' i)
  then have c: "canon t r'" using assms by (simp add: canon_append)
  then obtain n where n: "deref t r' = Some n" using canon_deref by blast
  have "canon n [i]" using assms snoc n by (simp add: canon_append)
  then have "length (names_along n [i]) = 1" by (auto split: option.splits)
  then obtain x where "names_along n [i] = [x]"
    by (cases "names_along n [i]") auto
  then show ?thesis using snoc n by (simp add: names_along_append)
qed

lemma find_index_Some:
  "find_index P xs = Some i \<Longrightarrow> i < length xs \<and> P (xs ! i)"
  by (induction xs arbitrary: i) (auto split: if_splits)

lemma find_index_same:
  "find_index (\<lambda>c. f c = v) xs = Some i \<Longrightarrow> find_index (\<lambda>c. f c = f (xs ! i)) xs = Some i"
  using find_index_Some[of "\<lambda>c. f c = v" xs i] by simp


lemma pwd_loop_names:
  "canon (root fs) r \<Longrightarrow> pwd_loop fs (Some r) acc = names_along (root fs) r @ acc"
proof (induction r arbitrary: acc rule: rev_induct)
  case Nil
  then show ?case by (simp add: pwd_loop.simps root_ref_def)
next
  case (snoc i r)
  have c: "canon (root fs) r" using snoc.prems by (simp add: canon_append)
  then obtain n where n: "deref (root fs) r = Some n" using canon_deref by blast
  have ci: "canon n [i]" using snoc.prems n by (simp add: canon_append)
  then obtain cs where cs: "children n = Some cs" "i < length cs"
    by (auto split: option.splits)
  have d: "deref (root fs) (r @ [i]) = Some (cs ! i)"
    using n cs by (simp add: deref_append)
  have "pwd_loop fs (Some (r @ [i])) acc = pwd_loop fs (Some r) (name (cs ! i) # acc)"
    using d by (subst pwd_loop.simps) (simp add: root_ref_def parent_def)
  also have "\<dots> = names_along (root fs) r @ name (cs ! i) # acc"
    using snoc.IH[OF c] by simp
  also have "\<dots> = names_along (root fs) (r @ [i]) @ acc"
    using n cs by (simp add: names_along_append)
  finally show ?case .
qed

lemma getPwd_names:
  "canon (root fs) (currentDir fs) \<Longrightarrow>
   getPwd fs = ''/'' @ join ''/'' (names_along (root fs) (currentDir fs))"
  by (simp add: getPwd_def pwd_loop_names)

lemma resolve_loop_canon:
  assumes "canon (root fs) cur" and "resolve_loop fs cur parts = Some r"
  shows "canon (root fs) r
         \<and> names_along (root fs) r = normalise (names_along (root fs) cur) parts"
  using assms
proof (induction parts arbitrary: cur)
  case Nil
  then show ?case by simp
next
  case (Cons part parts)
  show ?case
  proof (cases "part = ''..''")
    case True
    then have "resolve_loop fs (butlast cur) parts = Some r"
      using Cons.prems(2) by (simp add: parent_or_root_butlast)
    then show ?thesis
      using Cons.IH[of "butlast cur"] Cons.prems(1) True
      by (simp add: canon_butlast names_along_butlast)
  next
    case False
    obtain node where node: "deref (root fs) cur = Some node"
      using Cons.prems(1) canon_deref by blast
    obtain cs i where step: "children node = Some cs" "type node = Directory"
      "find_index (\<lambda>child. name child = part) cs = Some i"
      "resolve_loop fs (cur @ [i]) parts = Some r"
      using Cons.prems(2) False node by (auto split: option.splits if_splits)
    have i: "i < length cs" "name (cs ! i) = part"
      using find_index_Some[OF step(3)] by simp_all
    have "canon node [i]"
      using step i find_index_same[OF step(3)] by simp
    then have c: "canon (root fs) (cur @ [i])"
      using Cons.prems(1) node by (simp add: canon_append)
    have "names_along (root fs) (cur @ [i]) = names_along (root fs) cur @ [part]"
      using node step(1) i by (simp add: names_along_append)
    then show ?thesis
      using Cons.IH[OF c step(4)] False by simp
  qed
qed

lemma resolvePath_canon:
  assumes "canon (root fs) (currentDir fs)" and "resolvePath fs p = Some r"
  shows "canon (root fs) r"
proof -
  consider "p = ''/'' \<or> p = ''~''" | "p \<noteq> ''/''" "p \<noteq> ''~''" by blast
  then show ?thesis
  proof cases
    case 1
    then show ?thesis using assms(2) by (auto simp: resolvePath_def root_ref_def)
  next
    case 2
    then have "resolve_loop fs (if startsWith p ''/'' then root_ref else currentDir fs)
                 (path_parts p) = Some r"
      using resolvePath_as_loop[of p fs] assms(2) by simp
    moreover have "canon (root fs) (if startsWith p ''/'' then root_ref else currentDir fs)"
      using assms(1) by (simp add: root_ref_def)
    ultimately show ?thesis using resolve_loop_canon by blast
  qed
qed

lemma join_Cons: "ns \<noteq> [] \<Longrightarrow> join sep (n # ns) = n @ sep @ join sep ns"
  by (cases ns) simp_all

lemma split_join:
  "ns \<noteq> [] \<Longrightarrow> \<forall>n \<in> set ns. c \<notin> set n \<Longrightarrow> split c (join [c] ns) = ns"
proof (induction ns)
  case Nil
  then show ?case by simp
next
  case (Cons n ns)
  show ?case
  proof (cases "ns = []")
    case True
    then show ?thesis using Cons.prems by (simp add: split_no_sep)
  next
    case False
    then have "split c (join [c] (n # ns)) = split c n @ split c (join [c] ns)"
      using split_append_sep[of c n "join [c] ns"] by (simp add: join_Cons)
    then show ?thesis
      using Cons False by (simp add: split_no_sep)
  qed
qed

lemma path_parts_absolute:
  assumes "\<forall>n \<in> set ns. good_name n"
  shows "path_parts (''/'' @ join ''/'' ns) = ns"
proof (cases "ns = []")
  case True
  then show ?thesis by (simp add: path_parts_def)
next
  case False
  have "\<forall>n \<in> set ns. CHR ''/'' \<notin> set n"
    using assms by (simp add: good_name_def)
  then have "split CHR ''/'' (join ''/'' ns) = ns"
    using split_join[OF False, of "CHR ''/''"] by simp
  moreover have "filter (\<lambda>p. p \<noteq> [] \<and> p \<noteq> ''.'') ns = ns"
    using assms by (auto simp: good_name_def filter_id_conv)
  ultimately show ?thesis by (simp add: path_parts_def)
qed

lemma good_names_along:
  "good_names t \<Longrightarrow> \<forall>nm \<in> set (names_along t r). good_name nm"
proof (induction r arbitrary: t)
  case Nil
  then show ?case by simp
next
  case (Cons i r)
  obtain nm ty ct ch where t: "t = Node nm ty ct ch" by (cases t)
  show ?case
  proof (cases ch)
    case None
    then show ?thesis using t by simp
  next
    case (Some cs)
    show ?thesis
    proof (cases "i < length cs")
      case True
      then have "good_name (name (cs ! i))" "good_names (cs ! i)"
        using Cons.prems t Some by (simp_all add: list_all_length)
      then show ?thesis using Cons.IH[of "cs ! i"] t Some True by simp
    next
      case False
      then show ?thesis using t Some by simp
    qed
  qed
qed


lemma resolve_loop_names:
  assumes "deref (root fs) pre = Some n" and "canon n r" and "good_names n"
  shows "resolve_loop fs pre (names_along n r) = Some (pre @ r)"
  using assms
proof (induction r arbitrary: pre n)
  case Nil
  then show ?case by simp
next
  case (Cons i r)
  obtain nm ty ct ch where n: "n = Node nm ty ct ch" by (cases n)
  obtain cs where cs: "ch = Some cs" "ty = Directory" "i < length cs"
    "find_index (\<lambda>c. name c = name (cs ! i)) cs = Some i" "canon (cs ! i) r"
    using Cons.prems(2) n by (auto split: option.splits)
  have good: "good_name (name (cs ! i))" "good_names (cs ! i)"
    using Cons.prems(3) n cs by (simp_all add: list_all_length)
  then have nd: "name (cs ! i) \<noteq> ''..''" by (auto simp: good_name_def)
  have d: "deref (root fs) (pre @ [i]) = Some (cs ! i)"
    using Cons.prems(1) n cs by (simp add: deref_append)
  have "resolve_loop fs (pre @ [i]) (names_along (cs ! i) r) = Some ((pre @ [i]) @ r)"
    using Cons.IH[OF d cs(5) good(2)] .
  then show ?case
    using Cons.prems(1) n cs nd by simp
qed

lemma reachable_invariant:
  assumes "type t = Directory" and "reachable t fs"
  shows "root fs = t \<and> canon t (currentDir fs)
         \<and> (\<exists>n. deref t (currentDir fs) = Some n \<and> type n = Directory)"
  using assms(2)
proof (induction rule: reachable.induct)
  case initial
  then show ?case using assms(1) by (simp add: new_vfs_def root_ref_def)
next
  case (after_cd fs p)
  show ?case
  proof (cases "p = [] \<or> p = ''~''")
    case True
    then show ?thesis
      using after_cd.IH assms(1) by (auto simp: cd_def root_ref_def)
  next
    case False
    show ?thesis
    proof (cases "resolvePath fs p")
      case None
      then show ?thesis using after_cd.IH False by (simp add: cd_def)
    next
      case (Some r)
      have c: "canon t r"
        using resolvePath_canon[of fs p r] Some after_cd.IH by simp
      show ?thesis
        using after_cd.IH False Some c
        by (auto simp: cd_def split: option.splits)
    qed
  qed
qed

lemma absolute_not_literal:
  assumes "ns \<noteq> []" and "\<forall>n \<in> set ns. good_name n"
  shows "''/'' @ join ''/'' ns \<noteq> ''/''" and "startsWith (''/'' @ join ''/'' ns) ''/''"
proof -
  obtain n ns' where ns: "ns = n # ns'" using assms(1) by (cases ns) auto
  then have "n \<noteq> []" using assms(2) by (simp add: good_name_def)
  then have "join ''/'' ns \<noteq> []"
    using ns by (cases ns') simp_all
  then show "''/'' @ join ''/'' ns \<noteq> ''/''" by simp
  show "startsWith (''/'' @ join ''/'' ns) ''/''" by (simp add: startsWith_def)
qed

lemma cd_getPwd_round_trip:
  assumes "type t = Directory" and "good_names t" and "reachable t fs"
  shows "cd fs (getPwd fs) = ([], fs)"
proof -
  have inv: "root fs = t" "canon t (currentDir fs)"
    and dir: "\<exists>n. deref t (currentDir fs) = Some n \<and> type n = Directory"
    using reachable_invariant[OF assms(1,3)] by simp_all
  let ?ns = "names_along t (currentDir fs)"
  have pwd: "getPwd fs = ''/'' @ join ''/'' ?ns"
    using getPwd_names[of fs] inv by simp
  have good: "\<forall>n \<in> set ?ns. good_name n"
    using good_names_along[OF assms(2)] by simp
  have res: "resolvePath fs (getPwd fs) = Some (currentDir fs)"
  proof (cases "currentDir fs = []")
    case True
    then show ?thesis using pwd by (simp add: resolvePath_def root_ref_def)
  next
    case False
    then have ne: "?ns \<noteq> []"
      using names_along_length[OF inv(2)] by auto
    have lit: "getPwd fs \<noteq> ''/''" "getPwd fs \<noteq> ''~''" "startsWith (getPwd fs) ''/''"
      using absolute_not_literal[OF ne good] pwd by simp_all
    have "resolvePath fs (getPwd fs) = resolve_loop fs root_ref (path_parts (getPwd fs))"
      using resolvePath_as_loop[OF lit(1,2), of fs] lit(3) by simp
    also have "\<dots> = resolve_loop fs [] ?ns"
      using path_parts_absolute[OF good] pwd by (simp add: root_ref_def)
    also have "\<dots> = Some ([] @ currentDir fs)"
      using resolve_loop_names[of fs "[]" t "currentDir fs"] inv assms(2) by simp
    finally show ?thesis by simp
  qed
  have "getPwd fs \<noteq> []" "getPwd fs \<noteq> ''~''" using pwd by simp_all
  then show ?thesis
    using res dir inv by (auto simp: cd_def)
qed

lemma getPwd_after_cd:
  assumes "type t = Directory" and "good_names t" and "reachable t fs"
    and "valid_directory_path fs p"
  shows "fst (cd fs p) = [] \<and> getPwd (snd (cd fs p)) = absolute_form (getPwd fs) p"
proof -
  have inv: "root fs = t" "canon t (currentDir fs)"
    using reachable_invariant[OF assms(1,3)] by simp_all
  have good: "\<forall>n \<in> set (names_along t r). good_name n" for r
    using good_names_along[OF assms(2)] by simp
  have cwd: "segments_spec (getPwd fs) = names_along t (currentDir fs)"
    using getPwd_names[of fs] inv path_parts_absolute[OF good]
    by (simp add: path_parts_segments[symmetric])
  have ne: "p \<noteq> []" using assms(4) by (simp add: valid_directory_path_def)
  show ?thesis
  proof (cases "p = ''~''")
    case True
    have "getPwd (fs\<lparr>currentDir := root_ref\<rparr>) = ''/''"
      using getPwd_names[of "fs\<lparr>currentDir := root_ref\<rparr>"] by (simp add: root_ref_def)
    then show ?thesis using True by (simp add: cd_def absolute_form_def)
  next
    case False
    obtain r node where r: "resolvePath fs p = Some r" "deref (root fs) r = Some node"
      "type node = Directory"
      using assms(4) by (auto simp: valid_directory_path_def resolveNode_def split: option.splits)
    have cd: "cd fs p = ([], fs\<lparr>currentDir := r\<rparr>)"
      using r ne False by (simp add: cd_def)
    have c: "canon t r" using resolvePath_canon[of fs p r] r inv by simp
    have pwd': "getPwd (fs\<lparr>currentDir := r\<rparr>) = ''/'' @ join ''/'' (names_along t r)"
      using getPwd_names[of "fs\<lparr>currentDir := r\<rparr>"] c inv by simp
    have "names_along t r
            = normalise (case p of [] \<Rightarrow> segments_spec (getPwd fs)
                         | c # rest \<Rightarrow> if c = CHR ''/'' then [] else segments_spec (getPwd fs))
                (segments_spec p)"
    proof (cases "p = ''/''")
      case True
      then show ?thesis
        using r by (simp add: resolvePath_def root_ref_def segments_spec_def emit_segment_def)
    next
      case notroot: False
      let ?start = "if startsWith p ''/'' then root_ref else currentDir fs"
      have "resolve_loop fs ?start (path_parts p) = Some r"
        using resolvePath_as_loop[OF notroot False, of fs] r by simp
      moreover have "canon (root fs) ?start" using inv by (simp add: root_ref_def)
      ultimately have "names_along t r = normalise (names_along t ?start) (path_parts p)"
        using resolve_loop_canon[of fs ?start "path_parts p" r] inv by simp
      moreover have "names_along t ?start
          = (case p of [] \<Rightarrow> segments_spec (getPwd fs)
             | c # rest \<Rightarrow> if c = CHR ''/'' then [] else segments_spec (getPwd fs))"
        using cwd ne by (cases p) (auto simp: startsWith_def root_ref_def)
      ultimately show ?thesis by (simp add: path_parts_segments)
    qed
    then show ?thesis
      using cd pwd' False by (simp add: absolute_form_def)
  qed
qed


text \<open>
  Claim C3. In every state reachable from the constructor by \<open>cd\<close>, over a tree whose
  root is a directory and whose names can be written in a path expression, as in the seed
  tree: for every valid directory path \<open>p\<close>, \<open>cd p\<close> succeeds and \<open>getPwd\<close> then returns
  the absolute form of \<open>p\<close>; and \<open>cd\<close> of the result of \<open>getPwd\<close> succeeds and returns
  the state as it was.
\<close>

theorem cd_pwd_round_trip:
  assumes "type t = Directory" and "good_names t" and "reachable t fs"
  shows "(valid_directory_path fs p \<longrightarrow>
            fst (cd fs p) = [] \<and> getPwd (snd (cd fs p)) = absolute_form (getPwd fs) p)
         \<and> cd fs (getPwd fs) = ([], fs)"
  using getPwd_after_cd[OF assms] cd_getPwd_round_trip[OF assms] by simp

theorem cd_pwd_round_trip_witness:
  "type createInitialFileSystem = Directory \<and>
   good_names createInitialFileSystem \<and>
   reachable createInitialFileSystem (snd (cd constructor ''exploits'')) \<and>
   valid_directory_path (snd (cd constructor ''exploits'')) ''../tools/./'' \<and>
   getPwd (snd (cd constructor ''exploits'')) = ''/exploits'' \<and>
   absolute_form ''/exploits'' ''../tools/./'' = ''/tools'' \<and>
   getPwd (snd (cd (snd (cd constructor ''exploits'')) ''../tools/./'')) = ''/tools'' \<and>
   cd (snd (cd constructor ''exploits'')) ''/exploits''
     = ([], snd (cd constructor ''exploits''))"
proof -
  have t: "type createInitialFileSystem = Directory" by code_simp
  have g: "good_names createInitialFileSystem" by code_simp
  have r: "reachable createInitialFileSystem (snd (cd constructor ''exploits''))"
    unfolding constructor_def by (rule reachable.after_cd[OF reachable.initial])
  have v: "valid_directory_path (snd (cd constructor ''exploits'')) ''../tools/./''"
    by code_simp
  have p: "getPwd (snd (cd constructor ''exploits'')) = ''/exploits''"
    by code_simp
  have a: "absolute_form ''/exploits'' ''../tools/./'' = ''/tools''"
    by code_simp
  show ?thesis
    using cd_pwd_round_trip[OF t g r, of "''../tools/./''"] t g r v p a by simp
qed

section \<open>Resolved references point at objects\<close>

text \<open>
  While the current directory is a reference into the tree, every reference that
  \<open>resolvePath\<close> returns is one as well: the branches of the model for a position outside
  the tree are never taken.
\<close>

lemma deref_butlast: "deref t r = Some n \<Longrightarrow> \<exists>m. deref t (butlast r) = Some m"
proof (cases r rule: rev_cases)
  case Nil
  assume "deref t r = Some n"
  then show ?thesis using Nil by simp
next
  case (snoc r' i)
  assume "deref t r = Some n"
  then show ?thesis using snoc by (auto simp: deref_append split: option.splits)
qed

lemma resolve_loop_points_at_object:
  assumes "deref (root fs) cur = Some n" and "resolve_loop fs cur parts = Some r"
  shows "\<exists>m. deref (root fs) r = Some m"
  using assms
proof (induction parts arbitrary: cur n)
  case Nil
  then show ?case by simp
next
  case (Cons part parts)
  show ?case
  proof (cases "part = ''..''")
    case True
    obtain m where "deref (root fs) (butlast cur) = Some m"
      using deref_butlast[OF Cons.prems(1)] by blast
    then show ?thesis
      using Cons.IH[of "butlast cur" m] Cons.prems(2) True
      by (simp add: parent_or_root_butlast)
  next
    case False
    obtain cs i where step: "children n = Some cs"
      "find_index (\<lambda>child. name child = part) cs = Some i"
      "resolve_loop fs (cur @ [i]) parts = Some r"
      using Cons.prems False by (auto split: option.splits if_splits)
    have "deref (root fs) (cur @ [i]) = Some (cs ! i)"
      using Cons.prems(1) step(1) find_index_Some[OF step(2)] by (simp add: deref_append)
    then show ?thesis using Cons.IH step(3) by blast
  qed
qed

lemma resolvePath_points_at_object:
  assumes "deref (root fs) (currentDir fs) = Some n" and "resolvePath fs p = Some r"
  shows "\<exists>m. deref (root fs) r = Some m"
proof (cases "p = ''/'' \<or> p = ''~''")
  case True
  then show ?thesis using assms(2) by (auto simp: resolvePath_def root_ref_def)
next
  case False
  then have "resolve_loop fs (if startsWith p ''/'' then root_ref else currentDir fs)
               (path_parts p) = Some r"
    using resolvePath_as_loop[of p fs] assms(2) by simp
  moreover have "\<exists>m. deref (root fs) (if startsWith p ''/'' then root_ref else currentDir fs)
                        = Some m"
    using assms(1) by (simp add: root_ref_def)
  ultimately show ?thesis using resolve_loop_points_at_object by blast
qed

section \<open>The parent references stamped by \<open>setParents\<close>\<close>

text \<open>
  Every object of the tree is stamped, and the stamp of a reference is what \<open>parent\<close>
  returns for it.
\<close>

lemma setParents_stamps:
  "\<forall>(r, p) \<in> set (setParents n node par).
      (r = node \<and> p = par) \<or> (\<exists>q. q \<noteq> [] \<and> r = node @ q \<and> p = Some (butlast r))"
  "\<forall>(r, p) \<in> set (setParents_forEach cs node i).
      \<exists>q. q \<noteq> [] \<and> r = node @ q \<and> p = Some (butlast r)"
proof (induction n node par and cs node i rule: setParents_setParents_forEach.induct)
  case (1 nm ty ct ch node par)
  then show ?case by (cases ch) fastforce+
next
  case (2 node i)
  then show ?case by simp
next
  case (3 child cs node i)
  have "\<exists>q. q \<noteq> [] \<and> r = node @ q \<and> p = Some (butlast r)"
    if "(r, p) \<in> set (setParents child (node @ [i]) (Some node))" for r p
  proof -
    from 3(1) that consider "r = node @ [i]" "p = Some node"
      | q where "q \<noteq> []" "r = (node @ [i]) @ q" "p = Some (butlast r)"
      by fastforce
    then show ?thesis
    proof cases
      case 1
      then have "[i] \<noteq> [] \<and> r = node @ [i] \<and> p = Some (butlast r)" by simp
      then show ?thesis by blast
    next
      case 2
      then have "i # q \<noteq> [] \<and> r = node @ (i # q) \<and> p = Some (butlast r)" by simp
      then show ?thesis by blast
    qed
  qed
  then show ?case using 3(2) by auto
qed

lemma setParents_parent:
  "(r, p) \<in> set (setParents t root_ref None) \<Longrightarrow> p = parent r"
  using setParents_stamps(1)[of t root_ref None]
  by (auto simp: parent_def root_ref_def)

lemma setParents_forEach_nth:
  "j < length cs \<Longrightarrow>
   set (setParents (cs ! j) (node @ [k + j]) (Some node)) \<subseteq> set (setParents_forEach cs node k)"
proof (induction cs arbitrary: k j)
  case Nil
  then show ?case by simp
next
  case (Cons c cs)
  show ?case
  proof (cases j)
    case 0
    then show ?thesis by simp
  next
    case (Suc j')
    then show ?thesis using Cons.IH[of j' "Suc k"] Cons.prems by auto
  qed
qed

lemma setParents_covers:
  "deref n q = Some m \<Longrightarrow> node @ q \<in> fst ` set (setParents n node par)"
proof (induction q arbitrary: n node par)
  case Nil
  obtain nm ty ct ch where n: "n = Node nm ty ct ch" by (cases n)
  have "(node, par) \<in> set (setParents n node par)" using n by simp
  then have "fst (node, par) \<in> fst ` set (setParents n node par)" by (rule imageI)
  then show ?case by simp
next
  case (Cons i q)
  obtain nm ty ct ch where n: "n = Node nm ty ct ch" by (cases n)
  obtain cs where cs: "ch = Some cs" "i < length cs" "deref (cs ! i) q = Some m"
    using Cons.prems n by (auto split: option.splits if_splits)
  have "(node @ [i]) @ q \<in> fst ` set (setParents (cs ! i) (node @ [i]) (Some node))"
    using Cons.IH[OF cs(3)] .
  then have "node @ i # q \<in> fst ` set (setParents_forEach cs node 0)"
    using setParents_forEach_nth[OF cs(2), of node 0] by auto
  then show ?case using n cs by simp
qed

lemma setParents_every_node:
  "deref t r = Some m \<Longrightarrow> (r, parent r) \<in> set (setParents t root_ref None)"
proof -
  assume "deref t r = Some m"
  then have "root_ref @ r \<in> fst ` set (setParents t root_ref None)"
    by (rule setParents_covers)
  then obtain p where "(r, p) \<in> set (setParents t root_ref None)"
    by (auto simp: root_ref_def)
  then show ?thesis using setParents_parent by blast
qed

end
